theory Spec2Isabelle
  imports Main "HOL-Library.AList"
begin

section \<open>Data model\<close>

text \<open>
  \<^verbatim>\<open>connection.py\<close>: a \<^verbatim>\<open>Connection\<close> object holds the two attributes
  \<^verbatim>\<open>_node\<close> and \<^verbatim>\<open>_distance\<close>; \<^verbatim>\<open>__eq__\<close> compares the attribute
  dictionaries, which is equality of the record.  Node identifiers and distances are Python
  integers (unbounded), so both fields are \<^typ>\<open>int\<close>.
\<close>

record Connection =
  node :: int
  distance :: int

text \<open>
  \<^verbatim>\<open>graph.py\<close> raises one exception class, \<^verbatim>\<open>GraphException\<close>, with a different
  message at each place; the message is kept as a tag.  The other constructors are the Python
  built-in exceptions that the statements of the two files can raise.
\<close>

datatype message =
    NotThreeIntegers
  | NegativeDistance
  | NodeNotInGraph
  | NotTwoConnections
  | Node1NotInGraph
  | Node2NotInGraph

datatype error =
    GraphException message
  | NotImplementedError
  | NameError
  | TypeError
  | KeyError
  | IndexError
  | ValueError
  | OverflowError

text \<open>
  \<^verbatim>\<open>self._graph\<close> is a Python dictionary from node identifier to a list of connections.
  A dictionary (Python 3.7 and later) keeps its keys in the order of their insertion, a key that
  is assigned again keeps its place, and a deleted key that is inserted again goes to the end:
  this is an association list with distinct keys, written with \<^const>\<open>AList.update\<close> and
  \<^const>\<open>AList.delete\<close> and read with \<^const>\<open>map_of\<close>.
\<close>

type_synonym graph = "(int \<times> Connection list) list"

text \<open>
  Every method that mutates the graph returns its outcome together with the graph as the
  method leaves it, also when it raises: an exception does not undo what was done before it.
\<close>

type_synonym 'a outcome = "(error + 'a) \<times> graph"

section \<open>Connection.hash\_code\<close>

text \<open>
  The body of \<^verbatim>\<open>hash_code\<close> reads the bare names \<^verbatim>\<open>distance\<close> and \<^verbatim>\<open>node\<close>.
  A name is looked up among the local variables of the call (\<^verbatim>\<open>self\<close>, \<^verbatim>\<open>prime\<close>,
  \<^verbatim>\<open>result\<close>) and then among the globals of the module, where \<^verbatim>\<open>connection.py\<close> binds
  only the class \<^verbatim>\<open>Connection\<close>; no built-in has either name.  A failed lookup raises
  \<^verbatim>\<open>NameError\<close>.
\<close>

datatype pyvalue = PyInt int | PyConnection Connection | PyClass

definition connection_globals :: "(string \<times> pyvalue) list" where
  "connection_globals = [(''Connection'', PyClass)]"

definition load_name :: "(string \<times> pyvalue) list \<Rightarrow> string \<Rightarrow> error + pyvalue" where
  "load_name locals x =
     (case map_of locals x of
        Some v \<Rightarrow> Inr v
      | None \<Rightarrow> (case map_of connection_globals x of
                   Some v \<Rightarrow> Inr v
                 | None \<Rightarrow> Inl NameError))"

fun int_operand :: "pyvalue \<Rightarrow> error + int" where
  "int_operand (PyInt i) = Inr i"
| "int_operand v = Inl TypeError"

definition hash_code :: "Connection \<Rightarrow> error + int" where
  "hash_code self =
     (let prime = 31;
          result = 1;
          locals = [(''self'', PyConnection self), (''prime'', PyInt prime), (''result'', PyInt result)]
      in case load_name locals ''distance'' of
           Inl e \<Rightarrow> Inl e
         | Inr dv \<Rightarrow>
            (case int_operand dv of
               Inl e \<Rightarrow> Inl e
             | Inr d \<Rightarrow>
                (let result = prime * result + d;
                     locals = AList.update ''result'' (PyInt result) locals
                 in case load_name locals ''node'' of
                      Inl e \<Rightarrow> Inl e
                    | Inr nv \<Rightarrow>
                       (case int_operand nv of
                          Inl e \<Rightarrow> Inl e
                        | Inr n \<Rightarrow> Inr (prime * result + n)))))"

section \<open>Graph.add\_edge and the constructor\<close>

text \<open>\<^verbatim>\<open>self._graph[k].append(c)\<close>: the subscript raises \<^verbatim>\<open>KeyError\<close> on a missing key.\<close>

definition append_connection :: "graph \<Rightarrow> int \<Rightarrow> Connection \<Rightarrow> unit outcome" where
  "append_connection g k c =
     (case map_of g k of
        None \<Rightarrow> (Inl KeyError, g)
      | Some es \<Rightarrow> (Inr (), AList.update k (es @ [c]) g))"

definition add_edge :: "graph \<Rightarrow> int \<Rightarrow> int \<Rightarrow> int \<Rightarrow> unit outcome" where
  "add_edge g node1 node2 d =
     (if d < 0 then (Inl (GraphException NegativeDistance), g)
      else
        let g1 = (if map_of g node1 = None then AList.update node1 [] g else g)
        in case append_connection g1 node1 \<lparr>node = node2, distance = d\<rparr> of
             (Inl e, g2) \<Rightarrow> (Inl e, g2)
           | (Inr u, g2) \<Rightarrow>
               let g3 = (if map_of g2 node2 = None then AList.update node2 [] g2 else g2)
               in append_connection g3 node2 \<lparr>node = node1, distance = d\<rparr>)"

text \<open>
  The constructor starts from the empty dictionary and calls \<^verbatim>\<open>add_edge\<close> for each
  element of \<^verbatim>\<open>connections\<close>, after checking that the element has three entries.
  \<^verbatim>\<open>connections = None\<close> is the default argument.
\<close>

fun add_connections :: "graph \<Rightarrow> int list list \<Rightarrow> unit outcome" where
  "add_connections g [] = (Inr (), g)"
| "add_connections g (connection # rest) =
     (if length connection \<noteq> 3 then (Inl (GraphException NotThreeIntegers), g)
      else case add_edge g (connection ! 0) (connection ! 1) (connection ! 2) of
             (Inl e, g') \<Rightarrow> (Inl e, g')
           | (Inr u, g') \<Rightarrow> add_connections g' rest)"

definition Graph_init :: "int list list option \<Rightarrow> unit outcome" where
  "Graph_init connections =
     (case connections of
        None \<Rightarrow> (Inr (), [])
      | Some cs \<Rightarrow> add_connections [] cs)"

section \<open>Graph.get\_connections\<close>

text \<open>
  Two nested \<^verbatim>\<open>for\<close> loops that append to the list \<^verbatim>\<open>connections\<close>: the outer one
  runs through the keys of the dictionary in the dictionary's order, the inner one through the
  list stored under the key.  A record \<^verbatim>\<open>[node, edge.node, edge.distance]\<close> is a triple.
\<close>

fun edge_loop :: "int \<Rightarrow> Connection list \<Rightarrow> (int \<times> int \<times> int) list \<Rightarrow> (int \<times> int \<times> int) list" where
  "edge_loop nd [] connections = connections"
| "edge_loop nd (edge # rest) connections =
     edge_loop nd rest (connections @ [(nd, node edge, distance edge)])"

fun node_loop :: "graph \<Rightarrow> (int \<times> int \<times> int) list \<Rightarrow> (int \<times> int \<times> int) list" where
  "node_loop [] connections = connections"
| "node_loop ((nd, es) # rest) connections = node_loop rest (edge_loop nd es connections)"

definition get_connections :: "graph \<Rightarrow> (int \<times> int \<times> int) list" where
  "get_connections g = node_loop g []"

section \<open>Graph.contract\_node\_with\_two\_edges\<close>

text \<open>
  The inner loop \<^verbatim>\<open>for inv_connection in L: if inv_connection.node == node: L.remove(inv_connection)\<close>
  iterates over the very list it shrinks.  A Python list iterator is an index into the list:
  each round reads \<^verbatim>\<open>L[i]\<close> if \<^verbatim>\<open>i < len(L)\<close> and moves to \<^verbatim>\<open>i + 1\<close>, whatever
  happened to the list meanwhile.  \<^verbatim>\<open>L.remove(x)\<close> deletes the first element equal to
  \<^verbatim>\<open>x\<close> and raises \<^verbatim>\<open>ValueError\<close> when there is none.
\<close>

function remove_loop :: "int \<Rightarrow> Connection list \<Rightarrow> nat \<Rightarrow> (error + unit) \<times> Connection list" where
  "remove_loop nd L i =
     (if i < length L then
        (let inv_connection = L ! i in
         if node inv_connection = nd then
           (if inv_connection \<in> set L then remove_loop nd (remove1 inv_connection L) (Suc i)
            else (Inl ValueError, L))
         else remove_loop nd L (Suc i))
      else (Inr (), L))"
  by pat_completeness auto
termination
  by (relation "measure (\<lambda>(nd, L, i). length L - i)") (auto simp: length_remove1)

text \<open>
  The outer loop runs through the connections of the contracted node; the subscript
  \<^verbatim>\<open>self._graph[connection.node]\<close> raises \<^verbatim>\<open>KeyError\<close> on a missing key.
\<close>

fun remove_back_edges :: "graph \<Rightarrow> int \<Rightarrow> Connection list \<Rightarrow> unit outcome" where
  "remove_back_edges g nd [] = (Inr (), g)"
| "remove_back_edges g nd (connection # rest) =
     (case map_of g (node connection) of
        None \<Rightarrow> (Inl KeyError, g)
      | Some L \<Rightarrow>
         (case remove_loop nd L 0 of
            (Inl e, L') \<Rightarrow> (Inl e, AList.update (node connection) L' g)
          | (Inr u, L') \<Rightarrow> remove_back_edges (AList.update (node connection) L' g) nd rest))"

definition contract_node_with_two_edges :: "graph \<Rightarrow> int \<Rightarrow> unit outcome" where
  "contract_node_with_two_edges g nd =
     (case map_of g nd of
        None \<Rightarrow> (Inl (GraphException NodeNotInGraph), g)
      | Some connections \<Rightarrow>
         if length connections \<noteq> 2 then (Inl (GraphException NotTwoConnections), g)
         else
           (case remove_back_edges (AList.delete nd g) nd connections of
              (Inl e, g') \<Rightarrow> (Inl e, g')
            | (Inr u, g') \<Rightarrow>
                add_edge g' (node (connections ! 0)) (node (connections ! 1))
                  (distance (connections ! 0) + distance (connections ! 1))))"

section \<open>Shortest paths\<close>

text \<open>
  The entries of the array \<^verbatim>\<open>D\<close> are \<^verbatim>\<open>float('inf')\<close> or integers.  The sum of two
  integers is an integer.  To add an integer to the float infinity, Python first converts the
  integer to a float, rounding to the nearest double: this raises \<^verbatim>\<open>OverflowError\<close> when
  the integer rounds beyond the largest double, which is so from \<open>2 ^ 1024 - 2 ^ 970\<close> on in
  absolute value; otherwise the sum is infinity.  Comparing a float with an integer converts
  nothing and never raises; nothing is smaller than infinity but an integer.
\<close>

datatype number = IntVal int | Infinity

definition float_overflow :: "int \<Rightarrow> bool" where
  "float_overflow d \<longleftrightarrow> 2 ^ 1024 - 2 ^ 970 \<le> \<bar>d\<bar>"

fun plus_number :: "number \<Rightarrow> int \<Rightarrow> error + number" where
  "plus_number (IntVal a) d = Inr (IntVal (a + d))"
| "plus_number Infinity d = (if float_overflow d then Inl OverflowError else Inr Infinity)"

fun less_number :: "number \<Rightarrow> number \<Rightarrow> bool" where
  "less_number (IntVal a) (IntVal b) = (a < b)"
| "less_number (IntVal a) Infinity = True"
| "less_number Infinity y = False"

text \<open>
  A Python list subscript \<^verbatim>\<open>xs[i]\<close> with \<^verbatim>\<open>0 <= i < len(xs)\<close> is position \<^verbatim>\<open>i\<close>, with
  \<^verbatim>\<open>-len(xs) <= i < 0\<close> it is position \<^verbatim>\<open>len(xs) + i\<close>, and any other index raises
  \<^verbatim>\<open>IndexError\<close>.
\<close>

definition list_position :: "'a list \<Rightarrow> int \<Rightarrow> nat option" where
  "list_position xs i =
     (if 0 \<le> i \<and> i < int (length xs) then Some (nat i)
      else if i < 0 \<and> - int (length xs) \<le> i then Some (nat (int (length xs) + i))
      else None)"

text \<open>
  The loop over the connections of node \<^verbatim>\<open>i\<close> in \<^verbatim>\<open>dijkstra_version_1\<close>.  The condition
  \<^verbatim>\<open>D[i] + connection.distance < D[connection.node]\<close> evaluates the sum first, then the
  subscript, then compares.  The assignment forms the same sum from the same \<^verbatim>\<open>D\<close> again
  and stores it under the same subscript.
\<close>

fun relax :: "nat \<Rightarrow> Connection list \<Rightarrow> number list \<Rightarrow> error + number list" where
  "relax i [] D = Inr D"
| "relax i (connection # rest) D =
     (case plus_number (D ! i) (distance connection) of
        Inl e \<Rightarrow> Inl e
      | Inr s \<Rightarrow>
         (case list_position D (node connection) of
            None \<Rightarrow> Inl IndexError
          | Some j \<Rightarrow>
             if less_number s (D ! j)
             then relax i rest (D[j := s])
             else relax i rest D))"

text \<open>
  The loop \<^verbatim>\<open>for i in range(len(tight))\<close>; \<^verbatim>\<open>self._graph[i]\<close> raises \<^verbatim>\<open>KeyError\<close>
  when \<^verbatim>\<open>i\<close> is not a key.
\<close>

fun sweep :: "graph \<Rightarrow> nat list \<Rightarrow> number list \<times> bool list \<Rightarrow> error + number list \<times> bool list" where
  "sweep g [] (D, tight) = Inr (D, tight)"
| "sweep g (i # rest) (D, tight) =
     (let tight = tight[i := True] in
      case map_of g (int i) of
        None \<Rightarrow> Inl KeyError
      | Some es \<Rightarrow>
         (case relax i es D of
            Inl e \<Rightarrow> Inl e
          | Inr D' \<Rightarrow> sweep g rest (D', tight)))"

definition dijkstra_version_1 :: "graph \<Rightarrow> int \<Rightarrow> int \<Rightarrow> error + number" where
  "dijkstra_version_1 g node1 node2 =
     (if map_of g node1 = None then Inl (GraphException Node1NotInGraph)
      else if map_of g node2 = None then Inl (GraphException Node2NotInGraph)
      else
        let D = replicate (length g) Infinity in
        case list_position D node1 of
          None \<Rightarrow> Inl IndexError
        | Some k \<Rightarrow>
           (let D = D[k := IntVal 0];
                tight = replicate (length g) False
            in case sweep g [0..<length tight] (D, tight) of
                 Inl e \<Rightarrow> Inl e
               | Inr (D, tight) \<Rightarrow>
                  (case list_position D node2 of
                     None \<Rightarrow> Inl IndexError
                   | Some k \<Rightarrow> Inr (D ! k))))"

text \<open>
  The whole body of \<^verbatim>\<open>dijkstra_version_2\<close> but its last statement is commented out: what
  is left is \<^verbatim>\<open>raise NotImplementedError(...)\<close>.  \<^verbatim>\<open>dijkstra\<close> calls it.
\<close>

definition dijkstra_version_2 :: "graph \<Rightarrow> int \<Rightarrow> int \<Rightarrow> error + number" where
  "dijkstra_version_2 g node1 node2 = Inl NotImplementedError"

definition dijkstra :: "graph \<Rightarrow> int \<Rightarrow> int \<Rightarrow> error + number" where
  "dijkstra g node1 node2 = dijkstra_version_2 g node1 node2"

section \<open>Graphs that the public operations build\<close>

text \<open>
  A graph object comes from the constructor and is changed by \<^verbatim>\<open>add_edge\<close> and
  \<^verbatim>\<open>contract_node_with_two_edges\<close> only.  A call that raises leaves the object in the hands
  of the caller, so the graph after a failed call is reachable too.
\<close>

inductive reachable :: "graph \<Rightarrow> bool" where
  constructed: "Graph_init connections = (Inr (), g) \<Longrightarrow> reachable g"
| edge_added: "reachable g \<Longrightarrow> reachable (snd (add_edge g node1 node2 d))"
| contracted: "reachable g \<Longrightarrow> reachable (snd (contract_node_with_two_edges g nd))"

text \<open>The edge list stored under a node, empty for a node that is not a key.\<close>

definition edges :: "graph \<Rightarrow> int \<Rightarrow> Connection list" where
  "edges g u = (case map_of g u of None \<Rightarrow> [] | Some es \<Rightarrow> es)"

text \<open>
  The undirected pairing of the stored half-edges: every connection to \<open>v\<close> with weight
  \<open>w\<close> stored under \<open>u\<close> has a connection to \<open>u\<close> with weight \<open>w\<close> stored under
  \<open>v\<close>.
\<close>

definition paired :: "graph \<Rightarrow> bool" where
  "paired g \<longleftrightarrow>
     (\<forall>(u, es) \<in> set g. \<forall>e \<in> set es.
        \<lparr>node = u, distance = distance e\<rparr> \<in> set (edges g (node e)))"

text \<open>
  The pairing alone is not kept by a contraction, which needs to know how many back-edges there
  are.  What every operation keeps is the pairing with multiplicities: the keys are distinct,
  \<open>u\<close> stores \<open>v\<close> with weight \<open>w\<close> as often as \<open>v\<close> stores \<open>u\<close> with weight \<open>w\<close>,
  self-loops come in twos, and no weight is negative.
\<close>

definition multiplicity :: "graph \<Rightarrow> int \<Rightarrow> int \<Rightarrow> int \<Rightarrow> nat" where
  "multiplicity g u v w = count_list (edges g u) \<lparr>node = v, distance = w\<rparr>"

definition well_formed :: "graph \<Rightarrow> bool" where
  "well_formed g \<longleftrightarrow>
     distinct (map fst g) \<and>
     (\<forall>u v w. multiplicity g u v w = multiplicity g v u w) \<and>
     (\<forall>u w. even (multiplicity g u u w)) \<and>
     (\<forall>u. \<forall>e \<in> set (edges g u). 0 \<le> distance e)"

text \<open>A list of connections without those that lead to \<open>x\<close>.\<close>

definition without :: "int \<Rightarrow> Connection list \<Rightarrow> Connection list" where
  "without x L = filter (\<lambda>e. node e \<noteq> x) L"

text \<open>The graph of the demo block of \<^verbatim>\<open>graph.py\<close>.\<close>

definition demo_edges :: "int list list" where
  "demo_edges = [[0, 1, 4], [0, 3, 2], [1, 2, 5], [1, 3, 1], [2, 3, 8],
                 [2, 4, 1], [2, 5, 6], [3, 4, 9], [4, 5, 3]]"

section \<open>Edge insertion\<close>

lemma connection_surjective: "\<lparr>node = node e, distance = distance e\<rparr> = e"
  by (cases e) simp

lemma map_of_add_edge:
  "0 \<le> d \<Longrightarrow> map_of (snd (add_edge g n1 n2 d)) u =
     (if u = n1 \<or> u = n2
      then Some (edges g u @ (if u = n1 then [\<lparr>node = n2, distance = d\<rparr>] else [])
                           @ (if u = n2 then [\<lparr>node = n1, distance = d\<rparr>] else []))
      else map_of g u)"
  by (auto simp: add_edge_def append_connection_def edges_def update_conv' split: option.splits)

lemma fst_add_edge: "0 \<le> d \<Longrightarrow> fst (add_edge g n1 n2 d) = Inr ()"
  by (auto simp: add_edge_def append_connection_def update_conv' split: option.splits)

lemma add_edge_negative: "d < 0 \<Longrightarrow> add_edge g n1 n2 d = (Inl (GraphException NegativeDistance), g)"
  by (simp add: add_edge_def)

lemma edges_add_edge:
  "0 \<le> d \<Longrightarrow> edges (snd (add_edge g n1 n2 d)) u =
     edges g u @ (if u = n1 then [\<lparr>node = n2, distance = d\<rparr>] else [])
               @ (if u = n2 then [\<lparr>node = n1, distance = d\<rparr>] else [])"
  by (subst edges_def) (auto simp: map_of_add_edge edges_def)

lemma distinct_add_edge: "distinct (map fst g) \<Longrightarrow> distinct (map fst (snd (add_edge g n1 n2 d)))"
  by (auto simp: add_edge_def append_connection_def distinct_update Let_def split: option.splits)

lemma multiplicity_add_edge:
  "multiplicity (snd (add_edge g n1 n2 d)) u v w =
     multiplicity g u v w + (if u = n1 \<and> v = n2 \<and> w = d then 1 else 0)
                          + (if u = n2 \<and> v = n1 \<and> w = d then 1 else 0)" if "0 \<le> d"
  unfolding multiplicity_def edges_add_edge[OF that] by (cases "u = n1"; cases "u = n2") auto

lemma well_formed_add_edge:
  assumes "well_formed g"
  shows "well_formed (snd (add_edge g n1 n2 d))"
proof (cases "d < 0")
  case True
  with assms show ?thesis by (simp add: add_edge_negative)
next
  case False
  then have d: "0 \<le> d" by simp
  let ?g = "snd (add_edge g n1 n2 d)"
  from assms have sym: "multiplicity g u v w = multiplicity g v u w" for u v w
    by (simp add: well_formed_def)
  from assms have ev: "even (multiplicity g u u w)" for u w
    by (simp add: well_formed_def)
  from assms have nonneg: "e \<in> set (edges g u) \<Longrightarrow> 0 \<le> distance e" for u e
    by (simp add: well_formed_def)
  have "distinct (map fst ?g)"
    using assms by (simp add: well_formed_def distinct_add_edge)
  moreover have "multiplicity ?g u v w = multiplicity ?g v u w" for u v w
  proof -
    have "(if u = n1 \<and> v = n2 \<and> w = d then 1 else 0::nat) + (if u = n2 \<and> v = n1 \<and> w = d then 1 else 0)
        = (if v = n1 \<and> u = n2 \<and> w = d then 1 else 0) + (if v = n2 \<and> u = n1 \<and> w = d then 1 else 0)"
      by (cases "u = n1"; cases "u = n2"; cases "v = n1"; cases "v = n2"; cases "w = d"; simp)
    then show ?thesis
      unfolding multiplicity_add_edge[OF d] sym[of u v w] by (simp only: add.assoc)
  qed
  moreover have "even (multiplicity ?g u u w)" for u w
  proof (cases "u = n1 \<and> u = n2 \<and> w = d")
    case True
    then show ?thesis unfolding multiplicity_add_edge[OF d] using ev[of u w] by simp
  next
    case False
    then have "multiplicity ?g u u w = multiplicity g u u w"
      unfolding multiplicity_add_edge[OF d] by (cases "u = n1"; cases "u = n2"; cases "w = d"; simp)
    then show ?thesis using ev[of u w] by simp
  qed
  moreover have "0 \<le> distance e" if "e \<in> set (edges ?g u)" for u e
    using that d nonneg[of e u] unfolding edges_add_edge[OF d] by (auto split: if_splits)
  ultimately show ?thesis unfolding well_formed_def by blast
qed

lemma well_formed_empty: "well_formed []"
  by (simp add: well_formed_def multiplicity_def edges_def)

lemma well_formed_add_connections: "well_formed g \<Longrightarrow> well_formed (snd (add_connections g cs))"
proof (induction cs arbitrary: g)
  case Nil
  then show ?case by simp
next
  case (Cons c cs)
  have wf: "well_formed (snd (add_edge g (c ! 0) (c ! 1) (c ! 2)))"
    using Cons.prems by (rule well_formed_add_edge)
  show ?case
  proof (cases "add_edge g (c ! 0) (c ! 1) (c ! 2)")
    case (Pair r g')
    with wf have wf': "well_formed g'" by simp
    show ?thesis
    proof (cases r)
      case (Inl e)
      with Pair wf' Cons.prems show ?thesis by simp
    next
      case (Inr u)
      with Pair Cons.IH[OF wf'] Cons.prems show ?thesis by simp
    qed
  qed
qed

lemma well_formed_Graph_init: "well_formed (snd (Graph_init connections))"
  by (cases connections) (simp_all add: Graph_init_def well_formed_empty well_formed_add_connections)

lemma well_formed_paired:
  assumes "well_formed g"
  shows "paired g"
  unfolding paired_def
proof (intro ballI, clarify)
  fix u es e
  assume ue: "(u, es) \<in> set g" and e: "e \<in> set es"
  from assms have dist: "distinct (map fst g)" by (simp add: well_formed_def)
  with ue have "map_of g u = Some es" by simp
  then have "edges g u = es" by (simp add: edges_def)
  with e have "0 < multiplicity g u (node e) (distance e)"
    using count_list_0_iff[of es e] by (simp add: multiplicity_def connection_surjective)
  also have "multiplicity g u (node e) (distance e) = multiplicity g (node e) u (distance e)"
    using assms by (simp add: well_formed_def)
  finally show "\<lparr>node = u, distance = distance e\<rparr> \<in> set (edges g (node e))"
    using count_list_0_iff[of "edges g (node e)" "\<lparr>node = u, distance = distance e\<rparr>"]
    by (auto simp: multiplicity_def)
qed

section \<open>The removal loop of a contraction\<close>

declare remove_loop.simps [simp del]

lemma remove_loop_succeeds: "fst (remove_loop nd L i) = Inr ()"
proof (induction nd L i rule: remove_loop.induct)
  case (1 nd L i)
  show ?case
    using "1.IH" by (subst remove_loop.simps) (simp add: Let_def)
qed

lemma filter_remove1_other: "\<not> P x \<Longrightarrow> filter P (remove1 x xs) = filter P xs"
  by (induction xs) auto

lemma remove_loop_keeps_others:
  "filter (\<lambda>e. node e \<noteq> nd) (snd (remove_loop nd L i)) = filter (\<lambda>e. node e \<noteq> nd) L"
proof (induction nd L i rule: remove_loop.induct)
  case (1 nd L i)
  show ?case
    using "1.IH" by (subst remove_loop.simps) (simp add: Let_def filter_remove1_other)
qed

lemma length_filter_remove1: "x \<in> set xs \<Longrightarrow> P x \<Longrightarrow> length (filter P (remove1 x xs)) < length (filter P xs)"
  by (induction xs) (auto simp: less_Suc_eq_le)

lemma length_filter_remove1_le: "length (filter P (remove1 x xs)) \<le> length (filter P xs)"
proof (induction xs)
  case Nil
  show ?case by simp
next
  case (Cons y ys)
  then show ?case by (cases "x = y") auto
qed

lemma remove_loop_no_more:
  "length (filter (\<lambda>e. node e = nd) (snd (remove_loop nd L i))) \<le> length (filter (\<lambda>e. node e = nd) L)"
proof (induction nd L i rule: remove_loop.induct)
  case (1 nd L i)
  show ?case
  proof (cases "i < length L")
    case False
    then show ?thesis by (subst remove_loop.simps) simp
  next
    case i: True
    show ?thesis
    proof (cases "node (L ! i) = nd")
      case True
      have mem: "L ! i \<in> set L" using i by simp
      have "length (filter (\<lambda>e. node e = nd) (snd (remove_loop nd (remove1 (L ! i) L) (Suc i))))
         \<le> length (filter (\<lambda>e. node e = nd) (remove1 (L ! i) L))"
        using "1.IH"(1)[OF i refl True mem] .
      also have "\<dots> \<le> length (filter (\<lambda>e. node e = nd) L)" by (rule length_filter_remove1_le)
      finally show ?thesis
        using i True mem by (subst remove_loop.simps) (simp add: Let_def)
    next
      case False
      show ?thesis
        using "1.IH"(2)[OF i refl False] i False by (subst remove_loop.simps) (simp add: Let_def)
    qed
  qed
qed

lemma remove_loop_removes:
  "\<forall>e\<in>set (take i L). node e \<noteq> nd \<Longrightarrow> \<exists>e\<in>set (drop i L). node e = nd \<Longrightarrow>
   length (filter (\<lambda>e. node e = nd) (snd (remove_loop nd L i))) < length (filter (\<lambda>e. node e = nd) L)"
proof (induction nd L i rule: remove_loop.induct)
  case (1 nd L i)
  from "1.prems"(2) have i: "i < length L" by (cases "i < length L") auto
  show ?case
  proof (cases "node (L ! i) = nd")
    case True
    have mem: "L ! i \<in> set L" using i by simp
    have "length (filter (\<lambda>e. node e = nd) (snd (remove_loop nd (remove1 (L ! i) L) (Suc i))))
       \<le> length (filter (\<lambda>e. node e = nd) (remove1 (L ! i) L))" by (rule remove_loop_no_more)
    also have "\<dots> < length (filter (\<lambda>e. node e = nd) L)"
      using mem True by (intro length_filter_remove1) auto
    finally show ?thesis
      using i True mem by (subst remove_loop.simps) (simp add: Let_def)
  next
    case False
    have t: "\<forall>e\<in>set (take (Suc i) L). node e \<noteq> nd"
      using "1.prems"(1) False i by (auto simp: take_Suc_conv_app_nth)
    have d: "\<exists>e\<in>set (drop (Suc i) L). node e = nd"
      using "1.prems"(2) False i by (auto simp: Cons_nth_drop_Suc[symmetric])
    show ?thesis
      using "1.IH"(2)[OF i refl False t d] i False by (subst remove_loop.simps) (simp add: Let_def)
  qed
qed

section \<open>The sweep of dijkstra\_version\_1\<close>

lemma float_overflow_small: "\<bar>d\<bar> \<le> 1000 \<Longrightarrow> \<not> float_overflow d"
proof -
  have "(2::int) ^ 970 * 2 \<le> 2 ^ 970 * 2 ^ 54" by (intro mult_left_mono) simp_all
  then have "(2::int) ^ 970 * 2 \<le> 2 ^ 1024" by (simp add: power_add[symmetric])
  moreover have "(1000::int) < 2 ^ 970"
  proof -
    have "(1000::int) < 2 ^ 10" by simp
    also have "\<dots> \<le> 2 ^ 970" by (rule power_increasing) simp_all
    finally show ?thesis .
  qed
  ultimately show "\<bar>d\<bar> \<le> 1000 \<Longrightarrow> \<not> float_overflow d"
    unfolding float_overflow_def by linarith
qed

lemma float_overflow_large: "float_overflow (2 ^ 1024)"
proof -
  have "(0::int) \<le> 2 ^ 970" by simp
  then show ?thesis unfolding float_overflow_def by simp
qed

lemma plus_number_error: "plus_number x d = Inl e \<Longrightarrow> e = OverflowError \<and> float_overflow d"
  by (cases x) (auto split: if_splits)

lemma relax_error:
  "relax i es D = Inl e \<Longrightarrow>
     e = IndexError \<or> (e = OverflowError \<and> (\<exists>c\<in>set es. float_overflow (distance c)))"
proof (induction es arbitrary: D)
  case Nil
  then show ?case by simp
next
  case (Cons c es)
  show ?case
  proof (cases "plus_number (D ! i) (distance c)")
    case (Inl e')
    with Cons.prems plus_number_error[OF Inl] show ?thesis by auto
  next
    case (Inr s)
    show ?thesis
    proof (cases "list_position D (node c)")
      case None
      with Inr Cons.prems show ?thesis by simp
    next
      case (Some j)
      with Inr Cons.prems have "relax i es (D[j := s]) = Inl e \<or> relax i es D = Inl e"
        by (simp split: if_splits)
      with Cons.IH show ?thesis by auto
    qed
  qed
qed

lemma sweep_error:
  "sweep g is s = Inl e \<Longrightarrow>
     e = IndexError \<or> e = KeyError \<or>
     (e = OverflowError \<and> (\<exists>(u, es)\<in>set g. \<exists>c\<in>set es. float_overflow (distance c)))"
proof (induction "is" arbitrary: s)
  case Nil
  then show ?case by (cases s) simp
next
  case (Cons i "is")
  obtain D tight where s: "s = (D, tight)" by (cases s)
  show ?case
  proof (cases "map_of g (int i)")
    case None
    with Cons.prems s show ?thesis by simp
  next
    case (Some es)
    then have mem: "(int i, es) \<in> set g" by (rule map_of_SomeD)
    show ?thesis
    proof (cases "relax i es D")
      case (Inl e')
      with Cons.prems s Some have "e' = e" by simp
      with relax_error[OF Inl] mem show ?thesis by auto
    next
      case (Inr D')
      with Cons.prems s Some have "sweep g is (D', tight[i := True]) = Inl e" by simp
      then show ?thesis by (rule Cons.IH)
    qed
  qed
qed

lemma sweep_keys: "sweep g is s = Inr s' \<Longrightarrow> \<forall>i\<in>set is. map_of g (int i) \<noteq> None"
proof (induction "is" arbitrary: s)
  case Nil
  then show ?case by simp
next
  case (Cons i "is")
  then show ?case
    by (cases s) (auto simp: Let_def split: option.splits sum.splits)
qed

text \<open>
  The check of the two nodes in \<^verbatim>\<open>dijkstra_version_1\<close>: it raises the graph exception for a
  missing node exactly when one of the two nodes is not a key.
\<close>

lemma dijkstra_version_1_missing_node:
  "dijkstra_version_1 g node1 node2 \<in>
     {Inl (GraphException Node1NotInGraph), Inl (GraphException Node2NotInGraph)}
   \<longleftrightarrow> map_of g node1 = None \<or> map_of g node2 = None"
  by (auto simp: dijkstra_version_1_def Let_def split: option.splits sum.splits prod.splits
      dest: sweep_error)

lemma dijkstra_version_1_error:
  assumes "map_of g node1 \<noteq> None" and "map_of g node2 \<noteq> None"
    and "dijkstra_version_1 g node1 node2 = Inl e"
  shows "e = IndexError \<or> e = KeyError \<or>
     (e = OverflowError \<and> (\<exists>(u, es)\<in>set g. \<exists>c\<in>set es. float_overflow (distance c)))"
proof -
  from assms have "e = IndexError \<or> (\<exists>s. sweep g [0..<length g] s = Inl e)"
    by (auto simp: dijkstra_version_1_def Let_def split: option.splits sum.splits prod.splits)
  with sweep_error show ?thesis by blast
qed

text \<open>
  A weight that does not fit a float makes the sweep raise \<^verbatim>\<open>OverflowError\<close> when it is
  added to an entry that is still infinity: here at the first connection of node 0.
\<close>

lemma overflow_example:
  "dijkstra_version_1
     [(0, [\<lparr>node = 1, distance = 2 ^ 1024\<rparr>]),
      (1, [\<lparr>node = 0, distance = 2 ^ 1024\<rparr>, \<lparr>node = 7, distance = 1\<rparr>]),
      (7, [\<lparr>node = 1, distance = 1\<rparr>])] 1 7 = Inl OverflowError"
  by (simp add: dijkstra_version_1_def list_position_def upt_rec float_overflow_large del: power_numeral)

lemma dijkstra_version_1_returns_keys:
  assumes "dijkstra_version_1 g node1 node2 = Inr r"
  shows "int ` {0..<length g} \<subseteq> fst ` set g"
proof -
  from assms obtain s s' where "sweep g [0..<length g] s = Inr s'"
    by (auto simp: dijkstra_version_1_def Let_def split: option.splits sum.splits prod.splits if_splits)
  then have "\<forall>i\<in>set [0..<length g]. map_of g (int i) \<noteq> None" by (rule sweep_keys)
  then show ?thesis by (auto simp: map_of_eq_None_iff)
qed

lemma dense_keys:
  assumes "distinct (map fst g)" "int ` {0..<length g} \<subseteq> fst ` set g"
  shows "fst ` set g = int ` {0..<length g}"
proof -
  have "card (fst ` set g) = length g"
    using assms(1) distinct_card[of "map fst g"] by simp
  moreover have "card (int ` {0..<length g}) = length g"
    by (simp add: card_image)
  ultimately show ?thesis
    using card_subset_eq[of "fst ` set g" "int ` {0..<length g}"] assms(2) by simp
qed

section \<open>Claims on single calls\<close>

lemma demo_graph:
  "Graph_init (Some demo_edges) = (Inr (),
    [(0, [\<lparr>node = 1, distance = 4\<rparr>, \<lparr>node = 3, distance = 2\<rparr>]),
     (1, [\<lparr>node = 0, distance = 4\<rparr>, \<lparr>node = 2, distance = 5\<rparr>, \<lparr>node = 3, distance = 1\<rparr>]),
     (3, [\<lparr>node = 0, distance = 2\<rparr>, \<lparr>node = 1, distance = 1\<rparr>, \<lparr>node = 2, distance = 8\<rparr>,
          \<lparr>node = 4, distance = 9\<rparr>]),
     (2, [\<lparr>node = 1, distance = 5\<rparr>, \<lparr>node = 3, distance = 8\<rparr>, \<lparr>node = 4, distance = 1\<rparr>,
          \<lparr>node = 5, distance = 6\<rparr>]),
     (4, [\<lparr>node = 2, distance = 1\<rparr>, \<lparr>node = 3, distance = 9\<rparr>, \<lparr>node = 5, distance = 3\<rparr>]),
     (5, [\<lparr>node = 2, distance = 6\<rparr>, \<lparr>node = 4, distance = 3\<rparr>])])"
  by (simp add: Graph_init_def demo_edges_def add_edge_def append_connection_def)

lemma upt_6: "[0..<6] = [0, 1, 2, 3, 4, 5]"
  by (simp add: upt_rec)

text \<open>
  C1.  The claim: for non-negative weights and a reachable pair, \<^verbatim>\<open>dijkstra_version_2\<close>,
  and \<^verbatim>\<open>dijkstra\<close> which calls it, returns the shortest-path distance.  The code returns
  nothing: on every graph and every pair of nodes both raise \<^verbatim>\<open>NotImplementedError\<close>.
\<close>

theorem dijkstra_not_implemented:
  "dijkstra_version_2 g s t = Inl NotImplementedError \<and> dijkstra g s t = Inl NotImplementedError"
  by (simp add: dijkstra_def dijkstra_version_2_def)

text \<open>
  C2.  The claim: on the graph of the demo block the shortest-path entry point returns 6 for the
  pair (2, 3).  The entry point \<^verbatim>\<open>dijkstra\<close> raises \<^verbatim>\<open>NotImplementedError\<close> there, and
  the sweep \<^verbatim>\<open>dijkstra_version_1\<close> returns 8, although the graph stores the edges 2-1 of
  weight 5 and 1-3 of weight 1, a path of length 6.
\<close>

theorem demo_query_2_3:
  "dijkstra (snd (Graph_init (Some demo_edges))) 2 3 = Inl NotImplementedError \<and>
   dijkstra_version_1 (snd (Graph_init (Some demo_edges))) 2 3 = Inr (IntVal 8) \<and>
   \<lparr>node = 1, distance = 5\<rparr> \<in> set (edges (snd (Graph_init (Some demo_edges))) 2) \<and>
   \<lparr>node = 3, distance = 1\<rparr> \<in> set (edges (snd (Graph_init (Some demo_edges))) 1)"
  by (simp add: demo_graph dijkstra_def dijkstra_version_2_def dijkstra_version_1_def
      list_position_def upt_6 edges_def float_overflow_small)

text \<open>
  C3.  The claim: both strategies fail with the missing-node error when source or target is not
  in the graph.  \<^verbatim>\<open>dijkstra_version_2\<close> does not look at its arguments: on the graph with
  the one edge 0-1, where 7 is not a node, the query (7, 0) raises \<^verbatim>\<open>NotImplementedError\<close>,
  while \<^verbatim>\<open>dijkstra_version_1\<close> raises the graph exception.
\<close>

theorem dijkstra_version_2_missing_node:
  "map_of (snd (add_edge [] 0 1 1)) 7 = None \<and>
   dijkstra_version_2 (snd (add_edge [] 0 1 1)) 7 0 = Inl NotImplementedError \<and>
   dijkstra_version_1 (snd (add_edge [] 0 1 1)) 7 0 = Inl (GraphException Node1NotInGraph)"
  by (simp add: dijkstra_version_2_def dijkstra_version_1_def add_edge_def append_connection_def)

text \<open>
  C4.  A negative distance makes \<^verbatim>\<open>add_edge\<close> raise the graph exception and leave the graph
  as it was.  With a distance that is not negative the call succeeds, and the dictionary changes
  at the two nodes only: each gets the connection to the other appended to its list, which
  starts empty if the node was no key.
\<close>

theorem add_edge_atomic:
  "(d < 0 \<longrightarrow> add_edge g node1 node2 d = (Inl (GraphException NegativeDistance), g)) \<and>
   (0 \<le> d \<longrightarrow>
      fst (add_edge g node1 node2 d) = Inr () \<and>
      (\<forall>u. map_of (snd (add_edge g node1 node2 d)) u =
         (if u = node1 \<or> u = node2
          then Some (edges g u @ (if u = node1 then [\<lparr>node = node2, distance = d\<rparr>] else [])
                               @ (if u = node2 then [\<lparr>node = node1, distance = d\<rparr>] else []))
          else map_of g u)))"
  using add_edge_negative[of d g node1 node2] fst_add_edge[of d g node1 node2]
    map_of_add_edge[of d g node1 node2]
  by blast

theorem add_edge_atomic_witness:
  "add_edge [] 0 1 (- 1) = (Inl (GraphException NegativeDistance), []) \<and>
   fst (add_edge [] 0 1 4) = Inr () \<and>
   map_of (snd (add_edge [] 0 1 4)) 0 = Some [\<lparr>node = 1, distance = 4\<rparr>] \<and>
   map_of (snd (add_edge [] 0 1 4)) 1 = Some [\<lparr>node = 0, distance = 4\<rparr>] \<and>
   map_of (snd (add_edge [] 0 1 4)) 2 = None"
  using add_edge_atomic[where d = "- 1" and g = "[]" and ?node1.0 = 0 and ?node2.0 = 1]
    add_edge_atomic[where d = 4 and g = "[]" and ?node1.0 = 0 and ?node2.0 = 1]
  by (simp add: edges_def)

text \<open>
  C7.  \<^verbatim>\<open>contract_node_with_two_edges\<close> raises the graph exception for a missing node when
  the node is not a key, and the one for the number of connections when the list stored under
  the node does not have two elements; in both cases the graph is as it was.
\<close>

theorem contract_rejects:
  "(map_of g nd = None \<longrightarrow>
      contract_node_with_two_edges g nd = (Inl (GraphException NodeNotInGraph), g)) \<and>
   (\<forall>es. map_of g nd = Some es \<and> length es \<noteq> 2 \<longrightarrow>
      contract_node_with_two_edges g nd = (Inl (GraphException NotTwoConnections), g))"
  by (simp add: contract_node_with_two_edges_def)

theorem contract_rejects_witness:
  "contract_node_with_two_edges [(0, [\<lparr>node = 1, distance = 3\<rparr>]), (1, [\<lparr>node = 0, distance = 3\<rparr>])] 7
     = (Inl (GraphException NodeNotInGraph),
        [(0, [\<lparr>node = 1, distance = 3\<rparr>]), (1, [\<lparr>node = 0, distance = 3\<rparr>])]) \<and>
   contract_node_with_two_edges [(0, [\<lparr>node = 1, distance = 3\<rparr>]), (1, [\<lparr>node = 0, distance = 3\<rparr>])] 0
     = (Inl (GraphException NotTwoConnections),
        [(0, [\<lparr>node = 1, distance = 3\<rparr>]), (1, [\<lparr>node = 0, distance = 3\<rparr>])])"
  using contract_rejects[of "[(0, [\<lparr>node = 1, distance = 3\<rparr>]), (1, [\<lparr>node = 0, distance = 3\<rparr>])]" 7]
    contract_rejects[of "[(0, [\<lparr>node = 1, distance = 3\<rparr>]), (1, [\<lparr>node = 0, distance = 3\<rparr>])]" 0]
  by simp

text \<open>
  C9.  The claim: \<^verbatim>\<open>hash_code\<close> succeeds and returns a combination of the two fields.
  The body reads \<^verbatim>\<open>distance\<close> and \<^verbatim>\<open>node\<close> without \<^verbatim>\<open>self.\<close>, names that are
  bound nowhere, so every call raises \<^verbatim>\<open>NameError\<close>.
\<close>

theorem hash_code_name_error: "hash_code c = Inl NameError"
  by (simp add: hash_code_def load_name_def connection_globals_def)

text \<open>
  C10.  \<^verbatim>\<open>dijkstra_version_1\<close> sizes its array by the number of keys and sweeps
  \<^verbatim>\<open>range\<close> of that number.  On a graph with distinct keys that are not exactly
  \<open>0, \<dots>, N - 1\<close>, a query between two nodes of the graph neither returns nor raises the
  graph exception: it ends in \<^verbatim>\<open>IndexError\<close> or \<^verbatim>\<open>KeyError\<close>, or in
  \<^verbatim>\<open>OverflowError\<close>, which needs a stored weight too large for a float.  The graph that
  the single call \<^verbatim>\<open>add_edge(0, 5, 1)\<close> builds is one: the query (0, 5) raises
  \<^verbatim>\<open>IndexError\<close>.
\<close>

theorem dijkstra_version_1_needs_dense_keys:
  "(distinct (map fst g) \<and> node1 \<in> fst ` set g \<and> node2 \<in> fst ` set g \<and>
    fst ` set g \<noteq> int ` {0..<length g} \<longrightarrow>
      (dijkstra_version_1 g node1 node2 = Inl IndexError \<or>
       dijkstra_version_1 g node1 node2 = Inl KeyError \<or>
       dijkstra_version_1 g node1 node2 = Inl OverflowError) \<and>
      (dijkstra_version_1 g node1 node2 = Inl OverflowError \<longrightarrow>
         (\<exists>(u, es)\<in>set g. \<exists>c\<in>set es. float_overflow (distance c)))) \<and>
   reachable (snd (add_edge [] 0 5 1)) \<and>
   dijkstra_version_1 (snd (add_edge [] 0 5 1)) 0 5 = Inl IndexError"
proof (intro conjI impI)
  assume a: "distinct (map fst g) \<and> node1 \<in> fst ` set g \<and> node2 \<in> fst ` set g \<and>
    fst ` set g \<noteq> int ` {0..<length g}"
  then have k: "map_of g node1 \<noteq> None" "map_of g node2 \<noteq> None"
    by (simp_all add: map_of_eq_None_iff)
  show "dijkstra_version_1 g node1 node2 = Inl IndexError \<or>
        dijkstra_version_1 g node1 node2 = Inl KeyError \<or>
        dijkstra_version_1 g node1 node2 = Inl OverflowError"
  proof (cases "dijkstra_version_1 g node1 node2")
    case (Inl e)
    with dijkstra_version_1_error[OF k Inl] show ?thesis by auto
  next
    case (Inr r)
    from dense_keys[OF _ dijkstra_version_1_returns_keys[OF Inr]] a show ?thesis by simp
  qed
  assume "dijkstra_version_1 g node1 node2 = Inl OverflowError"
  from dijkstra_version_1_error[OF k this]
  show "\<exists>(u, es)\<in>set g. \<exists>c\<in>set es. float_overflow (distance c)" by simp
next
  have "reachable []"
    using reachable.constructed[of None "[]"] by (simp add: Graph_init_def)
  then show "reachable (snd (add_edge [] 0 5 1))" by (rule reachable.edge_added)
next
  show "dijkstra_version_1 (snd (add_edge [] 0 5 1)) 0 5 = Inl IndexError"
    by (simp add: dijkstra_version_1_def add_edge_def append_connection_def list_position_def
        upt_rec float_overflow_small)
qed

theorem dijkstra_version_1_needs_dense_keys_witness:
  "distinct (map fst (snd (add_edge [] 0 5 1))) \<and> 5 \<in> fst ` set (snd (add_edge [] 0 5 1)) \<and>
   0 \<in> fst ` set (snd (add_edge [] 0 5 1)) \<and>
   fst ` set (snd (add_edge [] 0 5 1)) \<noteq> int ` {0..<length (snd (add_edge [] 0 5 1))} \<and>
   dijkstra_version_1 (snd (add_edge [] 0 5 1)) 5 0 = Inl IndexError"
proof -
  have g: "snd (add_edge [] 0 5 1) = [(0, [\<lparr>node = 5, distance = 1\<rparr>]), (5, [\<lparr>node = 0, distance = 1\<rparr>])]"
    by (simp add: add_edge_def append_connection_def)
  have ne: "fst ` set (snd (add_edge [] 0 5 1)) \<noteq> int ` {0..<length (snd (add_edge [] 0 5 1))}"
  proof
    assume eq: "fst ` set (snd (add_edge [] 0 5 1)) = int ` {0..<length (snd (add_edge [] 0 5 1))}"
    have "5 \<in> fst ` set (snd (add_edge [] 0 5 1))" by (simp add: g)
    with eq have "5 \<in> int ` {0..<length (snd (add_edge [] 0 5 1))}" by simp
    then show False by (auto simp: g)
  qed
  have h: "distinct (map fst (snd (add_edge [] 0 5 1))) \<and> 5 \<in> fst ` set (snd (add_edge [] 0 5 1)) \<and>
           0 \<in> fst ` set (snd (add_edge [] 0 5 1)) \<and>
           fst ` set (snd (add_edge [] 0 5 1)) \<noteq> int ` {0..<length (snd (add_edge [] 0 5 1))}"
    using ne by (simp add: g)
  have small: "\<not> (\<exists>(u, es)\<in>set (snd (add_edge [] 0 5 1)). \<exists>c\<in>set es. float_overflow (distance c))"
    by (simp add: g float_overflow_small)
  from dijkstra_version_1_needs_dense_keys[of "snd (add_edge [] 0 5 1)" 5 0] h small
  have "dijkstra_version_1 (snd (add_edge [] 0 5 1)) 5 0 = Inl IndexError \<or>
        dijkstra_version_1 (snd (add_edge [] 0 5 1)) 5 0 = Inl KeyError" by blast
  moreover have "dijkstra_version_1 (snd (add_edge [] 0 5 1)) 5 0 \<noteq> Inl KeyError"
    by (simp add: g dijkstra_version_1_def list_position_def)
  ultimately show ?thesis using h by blast
qed


section \<open>Enumeration of the connections\<close>

lemma edge_loop_append: "edge_loop nd es acc = acc @ map (\<lambda>e. (nd, node e, distance e)) es"
  by (induction es arbitrary: acc) simp_all

lemma node_loop_append:
  "node_loop g acc = acc @ concat (map (\<lambda>(nd, es). map (\<lambda>e. (nd, node e, distance e)) es) g)"
  by (induction g arbitrary: acc) (auto simp: edge_loop_append)

lemma get_connections_concat:
  "get_connections g = concat (map (\<lambda>(nd, es). map (\<lambda>e. (nd, node e, distance e)) es) g)"
  by (simp add: get_connections_def node_loop_append)

lemma length_get_connections: "length (get_connections g) = sum_list (map (\<lambda>(nd, es). length es) g)"
  by (induction g) (auto simp: get_connections_concat)

lemma keys_update: "map fst (AList.update k v g) = map fst g @ (if map_of g k = None then [k] else [])"
  by (simp add: update_keys map_of_eq_None_iff)

lemma keys_add_edge:
  assumes "0 \<le> d"
  shows "map fst (snd (add_edge g n1 n2 d)) =
     map fst g @ (if map_of g n1 = None then [n1] else [])
               @ (if map_of g n2 = None \<and> n2 \<noteq> n1 then [n2] else [])"
proof (cases "map_of g n1")
  case None
  then show ?thesis
    using assms by (cases "map_of g n2"; cases "n2 = n1")
      (simp_all add: add_edge_def append_connection_def keys_update update_conv')
next
  case (Some es)
  then show ?thesis
    using assms by (cases "map_of g n2"; cases "n2 = n1")
      (simp_all add: add_edge_def append_connection_def keys_update update_conv')
qed

lemma count_records:
  "count_list (map (\<lambda>e. (k, node e, distance e)) es) (u, v, w)
     = (if k = u then count_list es \<lparr>node = v, distance = w\<rparr> else 0)"
  by (induction es) auto

lemma count_get_connections:
  "distinct (map fst g) \<Longrightarrow> count_list (get_connections g) (u, v, w) = multiplicity g u v w"
proof (induction g)
  case Nil
  show ?case by (simp add: get_connections_concat multiplicity_def edges_def)
next
  case (Cons p g)
  obtain k es where p: "p = (k, es)" by (cases p)
  from Cons.prems p have k: "map_of g k = None" and d: "distinct (map fst g)"
    by (auto simp: map_of_eq_None_iff)
  have "count_list (get_connections (p # g)) (u, v, w)
      = (if k = u then count_list es \<lparr>node = v, distance = w\<rparr> else 0) + multiplicity g u v w"
    using Cons.IH[OF d] by (simp add: get_connections_concat p count_records)
  also have "\<dots> = multiplicity (p # g) u v w"
    using k by (auto simp: multiplicity_def edges_def p)
  finally show ?case .
qed

text \<open>
  C8, as the claim states it: the records are enumerated by ascending node identifier.  The graph
  built from the one edge \<^verbatim>\<open>[8, 1, 1]\<close> has the keys 8 and 1 in this order, and
  \<^verbatim>\<open>get_connections\<close> returns the record of node 8 before the record of node 1.
\<close>

theorem get_connections_not_ascending:
  "get_connections (snd (Graph_init (Some [[8, 1, 1]]))) = [(8, 1, 1), (1, 8, 1)] \<and>
   \<not> sorted (map fst (get_connections (snd (Graph_init (Some [[8, 1, 1]])))))"
  by (simp add: get_connections_def Graph_init_def add_edge_def append_connection_def)

text \<open>
  C8, amended.  \<^verbatim>\<open>get_connections\<close> returns one record for each stored connection, node by
  node in the order of the keys of the dictionary and, for one node, in the order of its list.
  The order of the keys is the order in which the nodes were inserted: \<^verbatim>\<open>add_edge\<close> keeps
  the keys that are there and puts a new node behind them, \<^verbatim>\<open>node1\<close> before
  \<^verbatim>\<open>node2\<close>.
\<close>

theorem get_connections_order:
  "get_connections g = concat (map (\<lambda>(nd, es). map (\<lambda>e. (nd, node e, distance e)) es) g) \<and>
   length (get_connections g) = sum_list (map (\<lambda>(nd, es). length es) g) \<and>
   (0 \<le> d \<longrightarrow>
      map fst (snd (add_edge g node1 node2 d)) =
        map fst g @ (if map_of g node1 = None then [node1] else [])
                  @ (if map_of g node2 = None \<and> node2 \<noteq> node1 then [node2] else []))"
  using get_connections_concat[of g] length_get_connections[of g] keys_add_edge[of d g node1 node2]
  by blast

theorem get_connections_order_witness:
  "get_connections [(5, [\<lparr>node = 0, distance = 1\<rparr>]), (0, [\<lparr>node = 5, distance = 1\<rparr>])]
     = [(5, 0, 1), (0, 5, 1)] \<and>
   map fst (snd (add_edge [(5, [\<lparr>node = 0, distance = 1\<rparr>]), (0, [\<lparr>node = 5, distance = 1\<rparr>])] 3 0 2))
     = [5, 0, 3]"
  using get_connections_order[of "[(5, [\<lparr>node = 0, distance = 1\<rparr>]), (0, [\<lparr>node = 5, distance = 1\<rparr>])]" 2 3 0]
  by simp

section \<open>Contraction\<close>

lemma count_list_filter: "count_list (filter P xs) x = (if P x then count_list xs x else 0)"
  by (induction xs) auto

lemma connection_eq_iff: "e = \<lparr>node = v, distance = w\<rparr> \<longleftrightarrow> node e = v \<and> distance e = w"
  by (cases e) auto

lemma degree_as_sum:
  assumes "finite D" and "\<forall>e\<in>set L. node e = x \<longrightarrow> distance e \<in> D"
  shows "length (filter (\<lambda>e. node e = x) L) = (\<Sum>w\<in>D. count_list L \<lparr>node = x, distance = w\<rparr>)"
  using assms(2)
proof (induction L)
  case Nil
  show ?case by simp
next
  case (Cons e L)
  have "(\<Sum>w\<in>D. count_list (e # L) \<lparr>node = x, distance = w\<rparr>)
      = (\<Sum>w\<in>D. count_list L \<lparr>node = x, distance = w\<rparr> + (if w = distance e then (if node e = x then 1 else 0) else 0))"
    by (rule sum.cong) (auto simp: connection_eq_iff)
  also have "\<dots> = (\<Sum>w\<in>D. count_list L \<lparr>node = x, distance = w\<rparr>)
                 + (\<Sum>w\<in>D. if w = distance e then (if node e = x then 1 else 0) else 0)"
    by (rule sum.distrib)
  also have "(\<Sum>w\<in>D. if w = distance e then (if node e = x then 1 else 0) else 0)
           = (if node e = x then 1 else (0::nat))"
    using Cons.prems assms(1) by (subst sum.delta) auto
  finally show ?case using Cons by simp
qed

lemma degree_symmetric:
  assumes "well_formed g"
  shows "length (filter (\<lambda>e. node e = x) (edges g u)) = length (filter (\<lambda>e. node e = u) (edges g x))"
proof -
  let ?D = "distance ` (set (edges g u) \<union> set (edges g x))"
  have "length (filter (\<lambda>e. node e = x) (edges g u)) = (\<Sum>w\<in>?D. multiplicity g u x w)"
    unfolding multiplicity_def by (rule degree_as_sum) auto
  also have "\<dots> = (\<Sum>w\<in>?D. multiplicity g x u w)"
    using assms by (simp add: well_formed_def)
  also have "\<dots> = length (filter (\<lambda>e. node e = u) (edges g x))"
    unfolding multiplicity_def by (rule degree_as_sum[symmetric]) auto
  finally show ?thesis .
qed

lemma remove_loop_case:
  "(case remove_loop nd L i of (Inl e, L') \<Rightarrow> P e L' | (Inr u, L') \<Rightarrow> Q u L')
     = Q () (snd (remove_loop nd L i))"
  using remove_loop_succeeds[of nd L i] by (cases "remove_loop nd L i") (auto split: sum.splits)

lemma without_all: "length (filter (\<lambda>e. node e = x) L) = 0 \<Longrightarrow> without x L = L"
  by (induction L) (auto simp: without_def split: if_splits)

lemma one_pass:
  assumes "length (filter (\<lambda>e. node e = x) L) \<le> 1"
  shows "snd (remove_loop x L 0) = without x L"
proof -
  let ?L = "snd (remove_loop x L 0)"
  have "length (filter (\<lambda>e. node e = x) ?L) = 0"
  proof (cases "\<exists>e\<in>set L. node e = x")
    case True
    then have "length (filter (\<lambda>e. node e = x) ?L) < length (filter (\<lambda>e. node e = x) L)"
      by (intro remove_loop_removes) auto
    with assms show ?thesis by linarith
  next
    case False
    then have "length (filter (\<lambda>e. node e = x) L) = 0" by (simp add: filter_empty_conv)
    with remove_loop_no_more[of x L 0] show ?thesis by linarith
  qed
  then have "without x ?L = ?L" by (rule without_all)
  then show ?thesis using remove_loop_keeps_others[of x L 0] by (simp add: without_def)
qed

lemma two_passes:
  assumes "length (filter (\<lambda>e. node e = x) L) \<le> 2"
  shows "snd (remove_loop x (snd (remove_loop x L 0)) 0) = without x L"
proof -
  let ?L = "snd (remove_loop x L 0)"
  have "length (filter (\<lambda>e. node e = x) ?L) \<le> 1"
  proof (cases "\<exists>e\<in>set L. node e = x")
    case True
    then have "length (filter (\<lambda>e. node e = x) ?L) < length (filter (\<lambda>e. node e = x) L)"
      by (intro remove_loop_removes) auto
    with assms show ?thesis by simp
  next
    case False
    then have "length (filter (\<lambda>e. node e = x) L) = 0" by (simp add: filter_empty_conv)
    with remove_loop_no_more[of x L 0] show ?thesis by simp
  qed
  then have "snd (remove_loop x ?L 0) = without x ?L" by (rule one_pass)
  then show ?thesis using remove_loop_keeps_others[of x L 0] by (simp add: without_def)
qed

lemma map_of_edges: "map_of g u = Some es \<Longrightarrow> edges g u = es"
  by (simp add: edges_def)

lemma edges_nonempty_key: "edges g u \<noteq> [] \<Longrightarrow> map_of g u = Some (edges g u)"
  by (cases "map_of g u") (simp_all add: edges_def)

text \<open>
  In a well-formed graph where \<open>x\<close> stores the two connections \<open>c1\<close> and \<open>c2\<close>, the
  connections to \<open>x\<close> that a node \<open>u\<close> stores are as many as those of \<open>c1\<close> and \<open>c2\<close>
  that lead to \<open>u\<close>.
\<close>

lemma back_edges_count:
  assumes "well_formed g" and "map_of g x = Some [c1, c2]"
  shows "length (filter (\<lambda>e. node e = x) (edges g u))
       = (if node c1 = u then 1 else 0) + (if node c2 = u then 1 else 0)"
  using degree_symmetric[OF assms(1), of x u] map_of_edges[OF assms(2)] by simp

lemma remove_back_edges_pair:
  assumes wf: "well_formed g" and x: "map_of g x = Some [c1, c2]"
    and c1: "node c1 \<noteq> x" and c2: "node c2 \<noteq> x"
  shows "\<exists>g'. remove_back_edges (AList.delete x g) x [c1, c2] = (Inr (), g') \<and>
           distinct (map fst g') \<and>
           (\<forall>u. map_of g' u =
              (if u = x then None
               else if u = node c1 \<or> u = node c2 then Some (without x (edges g u))
               else map_of g u))"
proof -
  let ?A = "node c1" and ?B = "node c2" and ?g1 = "AList.delete x g"
  note cnt = back_edges_count[OF wf x]
  have A: "map_of g ?A = Some (edges g ?A)"
    using cnt[of ?A] by (intro edges_nonempty_key) auto
  have B: "map_of g ?B = Some (edges g ?B)"
    using cnt[of ?B] by (intro edges_nonempty_key) auto
  let ?LA = "snd (remove_loop x (edges g ?A) 0)"
  let ?g2 = "AList.update ?A ?LA ?g1"
  let ?LB = "snd (remove_loop x (if ?B = ?A then ?LA else edges g ?B) 0)"
  let ?g3 = "AList.update ?B ?LB ?g2"
  have g1A: "map_of ?g1 ?A = Some (edges g ?A)"
    using A c1 by (simp add: delete_conv')
  have g2B: "map_of ?g2 ?B = Some (if ?B = ?A then ?LA else edges g ?B)"
    using B c2 by (simp add: update_conv' delete_conv')
  have run: "remove_back_edges ?g1 x [c1, c2] = (Inr (), ?g3)"
    using g1A g2B
    by (simp add: remove_loop_case)
  have dist: "distinct (map fst ?g3)"
    using wf by (simp add: well_formed_def distinct_update distinct_delete)
  have LB: "?LB = without x (edges g ?B)"
  proof (cases "?B = ?A")
    case True
    have "length (filter (\<lambda>e. node e = x) (edges g ?A)) \<le> 2" using cnt[of ?A] by simp
    from two_passes[OF this] True show ?thesis by simp
  next
    case False
    have "length (filter (\<lambda>e. node e = x) (edges g ?B)) \<le> 1" using cnt[of ?B] False by simp
    from one_pass[OF this] False show ?thesis by simp
  qed
  have LA: "?LA = without x (edges g ?A)" if "?B \<noteq> ?A"
  proof -
    have "length (filter (\<lambda>e. node e = x) (edges g ?A)) \<le> 1" using cnt[of ?A] that by simp
    from one_pass[OF this] show ?thesis .
  qed
  have "map_of ?g3 u =
          (if u = x then None
           else if u = ?A \<or> u = ?B then Some (without x (edges g u))
           else map_of g u)" for u
    using LA LB c1 c2 x by (auto simp: update_conv' delete_conv')
  with run dist show ?thesis by blast
qed

lemma well_formed_without:
  assumes wf: "well_formed g" and dist: "distinct (map fst g')"
    and ed: "\<And>u. edges g' u = (if u = x then [] else without x (edges g u))"
  shows "well_formed g'"
proof -
  have m: "multiplicity g' u v w = (if u = x \<or> v = x then 0 else multiplicity g u v w)" for u v w
    by (simp add: multiplicity_def ed without_def count_list_filter)
  from wf have sym: "multiplicity g u v w = multiplicity g v u w" for u v w
    by (simp add: well_formed_def)
  from wf have ev: "even (multiplicity g u u w)" for u w
    by (simp add: well_formed_def)
  from wf have nonneg: "e \<in> set (edges g u) \<Longrightarrow> 0 \<le> distance e" for u e
    by (simp add: well_formed_def)
  have "multiplicity g' u v w = multiplicity g' v u w" for u v w
    unfolding m using sym[of u v w] by (simp add: disj_commute)
  moreover have "even (multiplicity g' u u w)" for u w
    unfolding m using ev[of u w] by simp
  moreover have "0 \<le> distance e" if "e \<in> set (edges g' u)" for u e
    using that nonneg[of e u] by (auto simp: ed without_def split: if_splits)
  ultimately show ?thesis using dist unfolding well_formed_def by blast
qed

lemma no_back_edges:
  assumes "well_formed g" and "map_of g x = Some [c1, c2]" and "node c1 \<noteq> u" and "node c2 \<noteq> u"
  shows "without x (edges g u) = edges g u"
  using back_edges_count[OF assms(1,2), of u] assms(3,4) by (intro without_all) simp

lemma self_loop_twice:
  assumes wf: "well_formed g" and x: "map_of g x = Some [c1, c2]"
    and loop: "node c1 = x \<or> node c2 = x"
  shows "node c1 = x \<and> node c2 = x"
proof -
  from wf have ev: "even (multiplicity g x x w)" for w by (simp add: well_formed_def)
  have e: "edges g x = [c1, c2]" using x by (rule map_of_edges)
  from loop show ?thesis
  proof
    assume "node c1 = x"
    then have "c1 = \<lparr>node = x, distance = distance c1\<rparr>" by (simp add: connection_eq_iff)
    with ev[of "distance c1"] e have "c2 = c1"
      by (auto simp: multiplicity_def split: if_splits)
    with \<open>node c1 = x\<close> show ?thesis by simp
  next
    assume "node c2 = x"
    then have "c2 = \<lparr>node = x, distance = distance c2\<rparr>" by (simp add: connection_eq_iff)
    with ev[of "distance c2"] e have "c1 = c2"
      by (auto simp: multiplicity_def split: if_splits)
    with \<open>node c2 = x\<close> show ?thesis by simp
  qed
qed

lemma two_elements: "length xs = 2 \<Longrightarrow> \<exists>a b. xs = [a, b]"
  by (cases xs; cases "tl xs") auto

lemma well_formed_contract:
  assumes wf: "well_formed g"
  shows "well_formed (snd (contract_node_with_two_edges g x))"
proof (cases "map_of g x")
  case None
  with wf show ?thesis by (simp add: contract_node_with_two_edges_def)
next
  case (Some cs)
  show ?thesis
  proof (cases "length cs = 2")
    case False
    with Some wf show ?thesis by (simp add: contract_node_with_two_edges_def)
  next
    case True
    then obtain c1 c2 where cs: "cs = [c1, c2]" using two_elements by blast
    with Some have x: "map_of g x = Some [c1, c2]" by simp
    show ?thesis
    proof (cases "node c1 = x \<or> node c2 = x")
      case True
      with self_loop_twice[OF wf x] have loop: "node c1 = x" "node c2 = x" by simp_all
      have res: "contract_node_with_two_edges g x = (Inl KeyError, AList.delete x g)"
        using x loop by (simp add: contract_node_with_two_edges_def delete_conv')
      have "well_formed (AList.delete x g)"
      proof (rule well_formed_without[OF wf])
        show "distinct (map fst (AList.delete x g))"
          using wf by (simp add: well_formed_def distinct_delete)
      next
        fix u
        show "edges (AList.delete x g) u = (if u = x then [] else without x (edges g u))"
        proof (cases "u = x")
          case True
          then show ?thesis by (simp add: edges_def delete_conv')
        next
          case False
          with no_back_edges[OF wf x, of u] loop have "without x (edges g u) = edges g u" by simp
          with False show ?thesis by (simp add: edges_def delete_conv')
        qed
      qed
      with res show ?thesis by simp
    next
      case False
      then have c: "node c1 \<noteq> x" "node c2 \<noteq> x" by simp_all
      from remove_back_edges_pair[OF wf x c] obtain g' where
        run: "remove_back_edges (AList.delete x g) x [c1, c2] = (Inr (), g')" and
        dist: "distinct (map fst g')" and
        m: "\<And>u. map_of g' u =
              (if u = x then None
               else if u = node c1 \<or> u = node c2 then Some (without x (edges g u))
               else map_of g u)" by blast
      have "well_formed g'"
      proof (rule well_formed_without[OF wf dist])
        fix u
        show "edges g' u = (if u = x then [] else without x (edges g u))"
        proof (cases "u = x \<or> u = node c1 \<or> u = node c2")
          case True
          then show ?thesis by (auto simp: edges_def m)
        next
          case False
          with no_back_edges[OF wf x, of u] have "without x (edges g u) = edges g u" by auto
          with False show ?thesis by (simp add: edges_def[of g'] m) (simp add: edges_def)
        qed
      qed
      then have "well_formed (snd (add_edge g' (node c1) (node c2) (distance c1 + distance c2)))"
        by (rule well_formed_add_edge)
      moreover have "contract_node_with_two_edges g x
          = add_edge g' (node c1) (node c2) (distance c1 + distance c2)"
        using x run by (simp add: contract_node_with_two_edges_def)
      ultimately show ?thesis by simp
    qed
  qed
qed

lemma reachable_well_formed: "reachable g \<Longrightarrow> well_formed g"
proof (induction rule: reachable.induct)
  case (constructed connections g)
  with well_formed_Graph_init[of connections] show ?case by simp
next
  case (edge_added g node1 node2 d)
  then show ?case by (intro well_formed_add_edge)
next
  case (contracted g nd)
  then show ?case by (intro well_formed_contract)
qed

lemma contract_outcome:
  assumes wf: "well_formed g" and x: "map_of g x = Some [c1, c2]"
    and c1: "node c1 \<noteq> x" and c2: "node c2 \<noteq> x"
  shows "\<exists>g'. contract_node_with_two_edges g x = (Inr (), g') \<and>
           (\<forall>u. map_of g' u =
              (if u = x then None
               else if u = node c1 \<or> u = node c2
               then Some (without x (edges g u)
                      @ (if u = node c1 then [\<lparr>node = node c2, distance = distance c1 + distance c2\<rparr>] else [])
                      @ (if u = node c2 then [\<lparr>node = node c1, distance = distance c1 + distance c2\<rparr>] else []))
               else map_of g u))"
proof -
  from remove_back_edges_pair[OF wf x c1 c2] obtain g2 where
    run: "remove_back_edges (AList.delete x g) x [c1, c2] = (Inr (), g2)" and
    m: "\<And>u. map_of g2 u =
          (if u = x then None
           else if u = node c1 \<or> u = node c2 then Some (without x (edges g u))
           else map_of g u)" by blast
  let ?d = "distance c1 + distance c2"
  let ?r = "add_edge g2 (node c1) (node c2) ?d"
  from wf have nonneg: "e \<in> set (edges g x) \<Longrightarrow> 0 \<le> distance e" for e
    by (simp add: well_formed_def)
  have "0 \<le> distance c1" "0 \<le> distance c2"
    using nonneg[of c1] nonneg[of c2] map_of_edges[OF x] by simp_all
  then have d: "0 \<le> ?d" by simp
  have res: "contract_node_with_two_edges g x = ?r"
    using x run by (simp add: contract_node_with_two_edges_def)
  have "?r = (Inr (), snd ?r)"
    using fst_add_edge[OF d, of g2 "node c1" "node c2"] by (cases ?r) simp
  moreover have "map_of (snd ?r) u =
              (if u = x then None
               else if u = node c1 \<or> u = node c2
               then Some (without x (edges g u)
                      @ (if u = node c1 then [\<lparr>node = node c2, distance = ?d\<rparr>] else [])
                      @ (if u = node c2 then [\<lparr>node = node c1, distance = ?d\<rparr>] else []))
               else map_of g u)" for u
    using c1 c2 by (simp add: map_of_add_edge[OF d] m edges_def[of g2])
  ultimately show ?thesis using res by metis
qed

lemma length_filter_remove1_eq:
  "x \<in> set xs \<Longrightarrow> P x \<Longrightarrow> Suc (length (filter P (remove1 x xs))) = length (filter P xs)"
  by (induction xs) auto

lemma count_list_remove1:
  "count_list (remove1 e L) y = (if e = y then count_list L y - 1 else count_list L y)"
  by (induction L) auto

lemma without_remove1: "node e = x \<Longrightarrow> without x (remove1 e L) = without x L"
  by (simp add: without_def filter_remove1_other)

lemma without_one:
  assumes "length (filter (\<lambda>e. node e = x) L) = 1" and "e \<in> set L" and "node e = x"
  shows "without x L = remove1 e L"
proof -
  have "length (filter (\<lambda>e. node e = x) (remove1 e L)) = 0"
    using assms length_filter_remove1_eq[of e L "\<lambda>e. node e = x"] by linarith
  then have "without x (remove1 e L) = remove1 e L" by (rule without_all)
  with without_remove1[OF assms(3), of L] show ?thesis by simp
qed

lemma without_two:
  assumes "length (filter (\<lambda>e. node e = x) L) = 2" and "e1 \<in> set L" and "node e1 = x"
    and "e2 \<in> set (remove1 e1 L)" and "node e2 = x"
  shows "without x L = remove1 e2 (remove1 e1 L)"
proof -
  have "length (filter (\<lambda>e. node e = x) (remove1 e1 L)) = 1"
    using assms(1-3) length_filter_remove1_eq[of e1 L "\<lambda>e. node e = x"] by linarith
  from without_one[OF this assms(4,5)] without_remove1[OF assms(3), of L] show ?thesis by simp
qed

lemma member_multiplicity: "\<lparr>node = v, distance = w\<rparr> \<in> set (edges g u) \<longleftrightarrow> 0 < multiplicity g u v w"
  using count_list_0_iff[of "edges g u" "\<lparr>node = v, distance = w\<rparr>"] by (auto simp: multiplicity_def)

lemma add_edge_success: "add_edge g u v w = (Inr r, g') \<Longrightarrow> 0 \<le> w"
  by (cases "w < 0") (simp_all add: add_edge_negative)

lemma reachable_empty: "reachable []"
  using reachable.constructed[of None "[]"] by (simp add: Graph_init_def)

text \<open>
  C5.  Every graph that the constructor, \<^verbatim>\<open>add_edge\<close> and
  \<^verbatim>\<open>contract_node_with_two_edges\<close> can build, the graphs left by failed calls included,
  satisfies the undirected pairing.  After a successful \<^verbatim>\<open>add_edge(u, v, w)\<close> on such a
  graph, \<^verbatim>\<open>get_connections\<close> holds a record \<open>(u, v, w)\<close> and a record \<open>(v, u, w)\<close>;
  for \<open>u = v\<close> the two are equal and the record occurs at least twice.
\<close>

theorem undirected_pairing:
  assumes "reachable g"
  shows "paired g \<and>
     (\<forall>u v w g'. add_edge g u v w = (Inr (), g') \<longrightarrow>
        (if u = v then 2 else 1) \<le> count_list (get_connections g') (u, v, w) \<and>
        (if u = v then 2 else 1) \<le> count_list (get_connections g') (v, u, w))"
proof (intro conjI allI impI)
  from assms have wf: "well_formed g" by (rule reachable_well_formed)
  then show "paired g" by (rule well_formed_paired)
  fix u v w g'
  assume a: "add_edge g u v w = (Inr (), g')"
  then have w: "0 \<le> w" by (rule add_edge_success)
  from a have g': "g' = snd (add_edge g u v w)" by simp
  have "distinct (map fst g')"
    unfolding g' using wf by (intro distinct_add_edge) (simp add: well_formed_def)
  then have c: "count_list (get_connections g') (p, q, r) = multiplicity g' p q r" for p q r
    by (rule count_get_connections)
  show "(if u = v then 2 else 1) \<le> count_list (get_connections g') (u, v, w)"
    unfolding c unfolding g' multiplicity_add_edge[OF w] by simp
  show "(if u = v then 2 else 1) \<le> count_list (get_connections g') (v, u, w)"
    unfolding c unfolding g' multiplicity_add_edge[OF w] by simp
qed

theorem undirected_pairing_witness:
  "reachable (snd (add_edge [] 0 1 4)) \<and> paired (snd (add_edge [] 0 1 4)) \<and>
   add_edge (snd (add_edge [] 0 1 4)) 1 1 3 =
     (Inr (), [(0, [\<lparr>node = 1, distance = 4\<rparr>]),
               (1, [\<lparr>node = 0, distance = 4\<rparr>, \<lparr>node = 1, distance = 3\<rparr>, \<lparr>node = 1, distance = 3\<rparr>])]) \<and>
   2 \<le> count_list (get_connections
          [(0, [\<lparr>node = 1, distance = 4\<rparr>]),
           (1, [\<lparr>node = 0, distance = 4\<rparr>, \<lparr>node = 1, distance = 3\<rparr>, \<lparr>node = 1, distance = 3\<rparr>])])
        (1, 1, 3)"
proof -
  have r: "reachable (snd (add_edge [] 0 1 4))"
    using reachable_empty by (rule reachable.edge_added)
  have a: "add_edge (snd (add_edge [] 0 1 4)) 1 1 3 =
     (Inr (), [(0, [\<lparr>node = 1, distance = 4\<rparr>]),
               (1, [\<lparr>node = 0, distance = 4\<rparr>, \<lparr>node = 1, distance = 3\<rparr>, \<lparr>node = 1, distance = 3\<rparr>])])"
    by (simp add: add_edge_def append_connection_def)
  from undirected_pairing[OF r] have p: "paired (snd (add_edge [] 0 1 4))"
    and q: "\<And>u v w g'. add_edge (snd (add_edge [] 0 1 4)) u v w = (Inr (), g') \<Longrightarrow>
              (if u = v then 2 else 1) \<le> count_list (get_connections g') (u, v, w)"
    by blast+
  from q[OF a] have "2 \<le> count_list (get_connections
          [(0, [\<lparr>node = 1, distance = 4\<rparr>]),
           (1, [\<lparr>node = 0, distance = 4\<rparr>, \<lparr>node = 1, distance = 3\<rparr>, \<lparr>node = 1, distance = 3\<rparr>])])
        (1, 1, 3)" by simp
  with r p a show ?thesis by blast
qed

text \<open>
  C6.  In a graph built by the public operations, let \<open>x\<close> store exactly the connections to
  \<open>A\<close> of weight \<open>a\<close> and to \<open>B\<close> of weight \<open>b\<close>, with \<open>A\<close> and \<open>B\<close> other than
  \<open>x\<close>.  Then the contraction of \<open>x\<close> succeeds; \<open>x\<close> is no key afterwards and the other
  keys are kept; every node keeps, in order, its connections that do not lead to \<open>x\<close>, and
  \<open>A\<close> and \<open>B\<close> get the connection of weight \<open>a + b\<close> to each other appended.  What
  \<open>A\<close> and \<open>B\<close> lose is one connection each, the one to \<open>x\<close> of weight \<open>a\<close> and the
  one to \<open>x\<close> of weight \<open>b\<close> (both from the same list if \<open>A = B\<close>); no other node stores a
  connection to \<open>x\<close>.
\<close>

theorem contraction_effect:
  assumes "reachable g"
    and "map_of g x = Some [\<lparr>node = A, distance = a\<rparr>, \<lparr>node = B, distance = b\<rparr>]"
    and "A \<noteq> x" and "B \<noteq> x"
  shows "\<exists>g'. contract_node_with_two_edges g x = (Inr (), g') \<and>
     (\<forall>u. map_of g' u = None \<longleftrightarrow> u = x \<or> map_of g u = None) \<and>
     (\<forall>u. u \<noteq> x \<longrightarrow>
        edges g' u = without x (edges g u)
          @ (if u = A then [\<lparr>node = B, distance = a + b\<rparr>] else [])
          @ (if u = B then [\<lparr>node = A, distance = a + b\<rparr>] else [])) \<and>
     \<lparr>node = x, distance = a\<rparr> \<in> set (edges g A) \<and>
     (if A = B
      then \<lparr>node = x, distance = b\<rparr> \<in> set (remove1 \<lparr>node = x, distance = a\<rparr> (edges g A)) \<and>
           without x (edges g A)
             = remove1 \<lparr>node = x, distance = b\<rparr> (remove1 \<lparr>node = x, distance = a\<rparr> (edges g A))
      else \<lparr>node = x, distance = b\<rparr> \<in> set (edges g B) \<and>
           without x (edges g A) = remove1 \<lparr>node = x, distance = a\<rparr> (edges g A) \<and>
           without x (edges g B) = remove1 \<lparr>node = x, distance = b\<rparr> (edges g B)) \<and>
     (\<forall>u. u \<noteq> x \<and> u \<noteq> A \<and> u \<noteq> B \<longrightarrow> without x (edges g u) = edges g u)"
proof -
  let ?c1 = "\<lparr>node = A, distance = a\<rparr>" and ?c2 = "\<lparr>node = B, distance = b\<rparr>"
  let ?xa = "\<lparr>node = x, distance = a\<rparr>" and ?xb = "\<lparr>node = x, distance = b\<rparr>"
  from assms(1) have wf: "well_formed g" by (rule reachable_well_formed)
  note x = assms(2)
  have c: "node ?c1 \<noteq> x" "node ?c2 \<noteq> x" using assms(3,4) by simp_all
  from wf have sym: "multiplicity g u v w = multiplicity g v u w" for u v w
    by (simp add: well_formed_def)
  have ex: "edges g x = [?c1, ?c2]" using x by (rule map_of_edges)
  note cnt = back_edges_count[OF wf x]
  from contract_outcome[OF wf x c] obtain g' where
    res: "contract_node_with_two_edges g x = (Inr (), g')" and
    m: "\<And>u. map_of g' u =
          (if u = x then None
           else if u = A \<or> u = B
           then Some (without x (edges g u)
                  @ (if u = A then [\<lparr>node = B, distance = a + b\<rparr>] else [])
                  @ (if u = B then [\<lparr>node = A, distance = a + b\<rparr>] else []))
           else map_of g u)" by auto
  have "map_of g A = Some (edges g A)"
    using cnt[of A] by (intro edges_nonempty_key) auto
  then have keyA: "map_of g A \<noteq> None" by simp
  have "map_of g B = Some (edges g B)"
    using cnt[of B] by (intro edges_nonempty_key) auto
  then have keyB: "map_of g B \<noteq> None" by simp
  have other: "without x (edges g u) = edges g u" if "u \<noteq> A" "u \<noteq> B" for u
    using no_back_edges[OF wf x, of u] that by simp
  have keys: "map_of g' u = None \<longleftrightarrow> u = x \<or> map_of g u = None" for u
    using keyA keyB by (auto simp: m)
  have ed: "edges g' u = without x (edges g u)
          @ (if u = A then [\<lparr>node = B, distance = a + b\<rparr>] else [])
          @ (if u = B then [\<lparr>node = A, distance = a + b\<rparr>] else [])" if "u \<noteq> x" for u
  proof (cases "u = A \<or> u = B")
    case True
    with that show ?thesis by (simp add: edges_def[of g'] m)
  next
    case False
    with that other[of u] show ?thesis by (simp add: edges_def[of g'] m) (simp add: edges_def)
  qed
  have xa: "?xa \<in> set (edges g A)"
    unfolding member_multiplicity sym[of A x a] by (simp add: multiplicity_def ex)
  have removed: "if A = B
      then ?xb \<in> set (remove1 ?xa (edges g A)) \<and> without x (edges g A) = remove1 ?xb (remove1 ?xa (edges g A))
      else ?xb \<in> set (edges g B) \<and> without x (edges g A) = remove1 ?xa (edges g A) \<and>
           without x (edges g B) = remove1 ?xb (edges g B)"
  proof (cases "A = B")
    case True
    have "count_list (edges g A) ?xb = multiplicity g x A b"
      using sym[of A x b] by (simp add: multiplicity_def)
    then have "count_list (remove1 ?xa (edges g A)) ?xb = 1"
      using True by (auto simp: count_list_remove1 multiplicity_def ex)
    then have xb: "?xb \<in> set (remove1 ?xa (edges g A))"
      using count_list_0_iff[of "remove1 ?xa (edges g A)" ?xb] by auto
    have "length (filter (\<lambda>e. node e = x) (edges g A)) = 2" using cnt[of A] True by simp
    from without_two[OF this xa _ xb] True xb show ?thesis by simp
  next
    case False
    have xb: "?xb \<in> set (edges g B)"
      unfolding member_multiplicity sym[of B x b] by (simp add: multiplicity_def ex)
    have "length (filter (\<lambda>e. node e = x) (edges g A)) = 1" using cnt[of A] False by simp
    from without_one[OF this xa] have 1: "without x (edges g A) = remove1 ?xa (edges g A)" by simp
    have "length (filter (\<lambda>e. node e = x) (edges g B)) = 1" using cnt[of B] False by simp
    from without_one[OF this xb] have 2: "without x (edges g B) = remove1 ?xb (edges g B)" by simp
    from False xb 1 2 show ?thesis by simp
  qed
  show ?thesis
  proof (intro exI conjI allI impI)
    show "contract_node_with_two_edges g x = (Inr (), g')" by (rule res)
  qed (use keys ed xa removed other in simp_all)
qed

theorem contraction_effect_witness:
  "reachable (snd (Graph_init (Some [[0, 1, 4], [1, 2, 5], [0, 2, 7]]))) \<and>
   map_of (snd (Graph_init (Some [[0, 1, 4], [1, 2, 5], [0, 2, 7]]))) 1
     = Some [\<lparr>node = 0, distance = 4\<rparr>, \<lparr>node = 2, distance = 5\<rparr>] \<and>
   (\<exists>g'. contract_node_with_two_edges (snd (Graph_init (Some [[0, 1, 4], [1, 2, 5], [0, 2, 7]]))) 1
            = (Inr (), g') \<and>
         map_of g' 1 = None \<and>
         edges g' 0 = [\<lparr>node = 2, distance = 7\<rparr>, \<lparr>node = 2, distance = 9\<rparr>] \<and>
         edges g' 2 = [\<lparr>node = 0, distance = 7\<rparr>, \<lparr>node = 0, distance = 9\<rparr>])"
proof -
  let ?g = "snd (Graph_init (Some [[0, 1, 4], [1, 2, 5], [0, 2, 7]]))"
  have g: "?g = [(0, [\<lparr>node = 1, distance = 4\<rparr>, \<lparr>node = 2, distance = 7\<rparr>]),
                 (1, [\<lparr>node = 0, distance = 4\<rparr>, \<lparr>node = 2, distance = 5\<rparr>]),
                 (2, [\<lparr>node = 1, distance = 5\<rparr>, \<lparr>node = 0, distance = 7\<rparr>])]"
    by (simp add: Graph_init_def add_edge_def append_connection_def)
  have "Graph_init (Some [[0, 1, 4], [1, 2, 5], [0, 2, 7]]) = (Inr (), ?g)"
    by (simp add: Graph_init_def add_edge_def append_connection_def)
  then have r: "reachable ?g" by (rule reachable.constructed)
  have m: "map_of ?g 1 = Some [\<lparr>node = 0, distance = 4\<rparr>, \<lparr>node = 2, distance = 5\<rparr>]"
    by (simp add: g)
  from contraction_effect[OF r m] obtain g' where
    c: "contract_node_with_two_edges ?g 1 = (Inr (), g')" and
    k: "\<forall>u. map_of g' u = None \<longleftrightarrow> u = 1 \<or> map_of ?g u = None" and
    e: "\<forall>u. u \<noteq> 1 \<longrightarrow> edges g' u = without 1 (edges ?g u)
          @ (if u = 0 then [\<lparr>node = 2, distance = 4 + 5\<rparr>] else [])
          @ (if u = 2 then [\<lparr>node = 0, distance = 4 + 5\<rparr>] else [])"
    by auto
  from k have "map_of g' 1 = None" by simp
  moreover from e have "edges g' 0 = [\<lparr>node = 2, distance = 7\<rparr>, \<lparr>node = 2, distance = 9\<rparr>]"
    by (simp add: g edges_def without_def)
  moreover from e have "edges g' 2 = [\<lparr>node = 0, distance = 7\<rparr>, \<lparr>node = 0, distance = 9\<rparr>]"
    by (simp add: g edges_def without_def)
  ultimately show ?thesis using r m c by blast
qed

end
